theory Spec2Isabelle
  imports Main "HOL-Library.Word" "HOL-Library.Sublist" "HOL-Library.Monad_Syntax"
begin

unbundle bit_operations_syntax

section \<open>SteganoCrypt: the LSB codec of \<^verbatim>\<open>steganography_tool.py\<close>\<close>

text \<open>
  A shallow embedding of class \<^verbatim>\<open>SteganographyEngine\<close> and of the frame parsing in
  \<^verbatim>\<open>SteganographyGUI.extract_data\<close> / \<^verbatim>\<open>extract_file_data\<close>.

  \<^item> A Python \<^verbatim>\<open>str\<close> that holds text (a message, a password, a file name, a hex
    digest) is the list of its code points, \<open>nat list\<close>: \<^verbatim>\<open>ord\<close> and \<^verbatim>\<open>chr\<close> are the
    identity.
  \<^item> A Python \<^verbatim>\<open>str\<close> that holds bits or a path is a \<open>string\<close>; its characters are
    code points below 256.
  \<^item> \<^verbatim>\<open>bytes\<close> are lists of naturals below 256; a pixel channel is an \<open>8 word\<close>.
  \<^item> An exception is the value \<open>None\<close>; both engine functions catch every exception and
    return \<^verbatim>\<open>False\<close> / \<^verbatim>\<open>None\<close>.
  \<^item> The image files on disk are a map from paths to decoded images, passed in and
    returned.
\<close>

type_synonym codepoints = "nat list"
type_synonym bytes = "nat list"
type_synonym byte = "8 word"

subsection \<open>Python built-ins used by the codec\<close>

text \<open>\<^verbatim>\<open>format(n, 'b')\<close>: the binary digits of \<open>n\<close>, most significant first.\<close>

fun bin_digits :: "nat \<Rightarrow> string" where
  "bin_digits n =
     (if n < 2 then [''01'' ! n] else bin_digits (n div 2) @ [''01'' ! (n mod 2)])"

declare bin_digits.simps [simp del]

text \<open>\<^verbatim>\<open>format(n, '08b')\<close>: the same, padded with zeros on the left to width 8.\<close>

definition format_08b :: "nat \<Rightarrow> string" where
  "format_08b n = replicate (8 - length (bin_digits n)) CHR ''0'' @ bin_digits n"

text \<open>\<^verbatim>\<open>str(n)\<close> for a non-negative integer.\<close>

fun str_nat :: "nat \<Rightarrow> string" where
  "str_nat n =
     (if n < 10 then [''0123456789'' ! n]
      else str_nat (n div 10) @ [''0123456789'' ! (n mod 10)])"

declare str_nat.simps [simp del]

text \<open>
  \<^verbatim>\<open>int(c)\<close> for a one-character string: the digit's value, \<^verbatim>\<open>ValueError\<close> for any other
  character with a code point below 256.
\<close>

definition int_digit :: "char \<Rightarrow> nat option" where
  "int_digit c =
     (if 48 \<le> (of_char c :: nat) \<and> (of_char c :: nat) \<le> 57 then Some (of_char c - 48) else None)"

text \<open>
  \<^verbatim>\<open>int(s, 2)\<close> on a non-empty string of the characters 0 and 1. Every string the program
  passes to it is cut from scanned LSB characters. Python accepts a few more spellings
  (sign, blanks, underscores, a \<^verbatim>\<open>0b\<close> prefix), which never arise here; on everything
  that is not a plain digit string the model answers \<open>None\<close>, as for \<^verbatim>\<open>ValueError\<close>.
\<close>

definition bit_string :: "string \<Rightarrow> bool" where
  "bit_string s = list_all (\<lambda>c. c = CHR ''0'' \<or> c = CHR ''1'') s"

definition bits_value :: "string \<Rightarrow> nat" where
  "bits_value s = foldl (\<lambda>acc c. 2 * acc + (if c = CHR ''1'' then 1 else 0)) 0 s"

definition int_base2 :: "string \<Rightarrow> nat option" where
  "int_base2 s = (if s \<noteq> [] \<and> bit_string s then Some (bits_value s) else None)"

text \<open>\<^verbatim>\<open>s.find(sub)\<close>: the lowest index where \<open>sub\<close> occurs; \<open>None\<close> stands for -1.\<close>

fun str_find :: "string \<Rightarrow> string \<Rightarrow> nat option" where
  "str_find [] sub = (if sub = [] then Some 0 else None)"
| "str_find (c # s) sub =
     (if prefix sub (c # s) then Some 0 else map_option Suc (str_find s sub))"

text \<open>\<^verbatim>\<open>s.rfind(c)\<close> for a single character, -1 when absent.\<close>

definition rfind :: "string \<Rightarrow> char \<Rightarrow> int" where
  "rfind s c = (case filter (\<lambda>i. s ! i = c) (rev [0..<length s]) of [] \<Rightarrow> - 1 | i # _ \<Rightarrow> int i)"

text \<open>\<^verbatim>\<open>s.lower()\<close> on code points below 256.\<close>

definition lower_char :: "char \<Rightarrow> char" where
  "lower_char c =
     (let n = (of_char c :: nat)
      in if (65 \<le> n \<and> n \<le> 90) \<or> (192 \<le> n \<and> n \<le> 222 \<and> n \<noteq> 215) then char_of (n + 32) else c)"

definition lower :: "string \<Rightarrow> string" where
  "lower s = map lower_char s"

text \<open>
  \<^verbatim>\<open>os.path.splitext\<close> (POSIX flavour): the extension starts at the last dot of the last
  path component, unless only dots precede it there.
\<close>

definition splitext :: "string \<Rightarrow> string \<times> string" where
  "splitext p =
     (let sepIndex = rfind p CHR ''/''; dotIndex = rfind p CHR ''.''
      in if dotIndex > sepIndex
            \<and> list_ex (\<lambda>k. p ! k \<noteq> CHR ''.'') [nat (sepIndex + 1)..<nat dotIndex]
         then (take (nat dotIndex) p, drop (nat dotIndex) p)
         else (p, []))"

text \<open>
  \<^verbatim>\<open>struct.pack('<I', n)\<close>: four bytes, least significant first; \<^verbatim>\<open>struct.error\<close> when
  \<open>n\<close> does not fit 32 bits. \<^verbatim>\<open>struct.unpack\<close> is its inverse on four bytes.
\<close>

definition pack_u32le :: "nat \<Rightarrow> bytes option" where
  "pack_u32le n =
     (if n < 2 ^ 32
      then Some [n mod 256, n div 256 mod 256, n div 65536 mod 256, n div 16777216 mod 256]
      else None)"

fun unpack_u32le :: "bytes \<Rightarrow> nat option" where
  "unpack_u32le [b0, b1, b2, b3] = Some (b0 + 256 * (b1 + 256 * (b2 + 256 * b3)))"
| "unpack_u32le _ = None"

text \<open>
  \<^verbatim>\<open>password.encode()\<close>: UTF-8; a lone surrogate raises \<^verbatim>\<open>UnicodeEncodeError\<close>. A Python
  string has no code point above \<open>0x10FFFF\<close>.
\<close>

definition utf8_char :: "nat \<Rightarrow> bytes option" where
  "utf8_char c =
     (if c < 0x80 then Some [c]
      else if c < 0x800 then Some [0xC0 + c div 64, 0x80 + c mod 64]
      else if 0xD800 \<le> c \<and> c < 0xE000 then None
      else if c < 0x10000 then Some [0xE0 + c div 4096, 0x80 + c div 64 mod 64, 0x80 + c mod 64]
      else if c < 0x110000
        then Some [0xF0 + c div 262144, 0x80 + c div 4096 mod 64, 0x80 + c div 64 mod 64,
                   0x80 + c mod 64]
      else None)"

fun encode :: "codepoints \<Rightarrow> bytes option" where
  "encode [] = Some []"
| "encode (c # cs) =
     (case utf8_char c of None \<Rightarrow> None
      | Some bs \<Rightarrow> (case encode cs of None \<Rightarrow> None | Some r \<Rightarrow> Some (bs @ r)))"

subsection \<open>\<^verbatim>\<open>hashlib.sha256(...).hexdigest()\<close>\<close>

text \<open>
  The standard library's SHA-256 (FIPS 180-4) on 32-bit words, written on naturals with
  the reduction modulo \<open>2^32\<close> spelled out. \<open>K256\<close> holds the first 32 bits of the
  fractional parts of the cube roots of the first 64 primes, \<open>H256\<close> those of the square
  roots of the first 8.
\<close>

type_synonym sha_state = "nat \<times> nat \<times> nat \<times> nat \<times> nat \<times> nat \<times> nat \<times> nat"

definition K256 :: "nat list" where
  "K256 = [1116352408, 1899447441, 3049323471, 3921009573, 961987163, 1508970993,
     2453635748, 2870763221, 3624381080, 310598401, 607225278, 1426881987, 1925078388,
     2162078206, 2614888103, 3248222580, 3835390401, 4022224774, 264347078, 604807628,
     770255983, 1249150122, 1555081692, 1996064986, 2554220882, 2821834349, 2952996808,
     3210313671, 3336571891, 3584528711, 113926993, 338241895, 666307205, 773529912,
     1294757372, 1396182291, 1695183700, 1986661051, 2177026350, 2456956037, 2730485921,
     2820302411, 3259730800, 3345764771, 3516065817, 3600352804, 4094571909, 275423344,
     430227734, 506948616, 659060556, 883997877, 958139571, 1322822218, 1537002063,
     1747873779, 1955562222, 2024104815, 2227730452, 2361852424, 2428436474, 2756734187,
     3204031479, 3329325298]"

definition H256 :: "sha_state" where
  "H256 = (1779033703, 3144134277, 1013904242, 2773480762,
           1359893119, 2600822924, 528734635, 1541459225)"

definition add32 :: "nat \<Rightarrow> nat \<Rightarrow> nat" where
  "add32 x y = (x + y) mod 4294967296"

definition rotr :: "nat \<Rightarrow> nat \<Rightarrow> nat" where
  "rotr n x = x div 2 ^ n + (x mod 2 ^ n) * 2 ^ (32 - n)"

definition shr :: "nat \<Rightarrow> nat \<Rightarrow> nat" where
  "shr n x = x div 2 ^ n"

definition Sigma0 :: "nat \<Rightarrow> nat" where
  "Sigma0 x = rotr 2 x XOR rotr 13 x XOR rotr 22 x"

definition Sigma1 :: "nat \<Rightarrow> nat" where
  "Sigma1 x = rotr 6 x XOR rotr 11 x XOR rotr 25 x"

definition sigma0 :: "nat \<Rightarrow> nat" where
  "sigma0 x = rotr 7 x XOR rotr 18 x XOR shr 3 x"

definition sigma1 :: "nat \<Rightarrow> nat" where
  "sigma1 x = rotr 17 x XOR rotr 19 x XOR shr 10 x"

definition Ch :: "nat \<Rightarrow> nat \<Rightarrow> nat \<Rightarrow> nat" where
  "Ch x y z = (x AND y) XOR ((4294967295 - x) AND z)"

definition Maj :: "nat \<Rightarrow> nat \<Rightarrow> nat \<Rightarrow> nat" where
  "Maj x y z = (x AND y) XOR (x AND z) XOR (y AND z)"

definition be_bytes64 :: "nat \<Rightarrow> bytes" where
  "be_bytes64 n = map (\<lambda>i. (n div 256 ^ i) mod 256) [7, 6, 5, 4, 3, 2, 1, 0]"

definition sha_pad :: "bytes \<Rightarrow> bytes" where
  "sha_pad m = m @ [0x80] @ replicate ((119 - length m mod 64) mod 64) 0
                 @ be_bytes64 (8 * length m)"

fun be_words :: "bytes \<Rightarrow> nat list" where
  "be_words (a # b # c # d # r) = (((a * 256 + b) * 256 + c) * 256 + d) # be_words r"
| "be_words _ = []"

definition next_w :: "nat list \<Rightarrow> nat" where
  "next_w w = add32 (add32 (add32 (sigma1 (w ! (length w - 2))) (w ! (length w - 7)))
                           (sigma0 (w ! (length w - 15)))) (w ! (length w - 16))"

fun expand :: "nat \<Rightarrow> nat list \<Rightarrow> nat list" where
  "expand 0 w = w"
| "expand (Suc n) w = expand n (w @ [next_w w])"

fun round :: "nat \<times> nat \<Rightarrow> sha_state \<Rightarrow> sha_state" where
  "round (k, w) (a, b, c, d, e, f, g, h) =
     (let T1 = add32 (add32 (add32 (add32 h (Sigma1 e)) (Ch e f g)) k) w;
          T2 = add32 (Sigma0 a) (Maj a b c)
      in (add32 T1 T2, a, b, c, add32 d T1, e, f, g))"

fun rounds :: "(nat \<times> nat) list \<Rightarrow> sha_state \<Rightarrow> sha_state" where
  "rounds [] s = s"
| "rounds (kw # r) s = rounds r (round kw s)"

fun add_state :: "sha_state \<Rightarrow> sha_state \<Rightarrow> sha_state" where
  "add_state (a, b, c, d, e, f, g, h) (a', b', c', d', e', f', g', h') =
     (add32 a a', add32 b b', add32 c c', add32 d d',
      add32 e e', add32 f f', add32 g g', add32 h h')"

definition compress :: "sha_state \<Rightarrow> nat list \<Rightarrow> sha_state" where
  "compress h block = add_state h (rounds (zip K256 (expand 48 block)) h)"

fun blocks :: "nat \<Rightarrow> bytes \<Rightarrow> sha_state \<Rightarrow> sha_state" where
  "blocks 0 m h = h"
| "blocks (Suc n) m h = blocks n (drop 64 m) (compress h (be_words (take 64 m)))"

definition sha256 :: "bytes \<Rightarrow> sha_state" where
  "sha256 m = blocks (length (sha_pad m) div 64) (sha_pad m) H256"

definition hexchar :: "nat \<Rightarrow> nat" where
  "hexchar d = (if d < 10 then 48 + d else 87 + d)"

definition hex32 :: "nat \<Rightarrow> codepoints" where
  "hex32 w = map (\<lambda>i. hexchar ((w div 16 ^ i) mod 16)) [7, 6, 5, 4, 3, 2, 1, 0]"

fun state_words :: "sha_state \<Rightarrow> nat list" where
  "state_words (a, b, c, d, e, f, g, h) = [a, b, c, d, e, f, g, h]"

definition sha256_hexdigest :: "bytes \<Rightarrow> codepoints" where
  "sha256_hexdigest m = concat (map hex32 (state_words (sha256 m)))"

subsection \<open>\<^verbatim>\<open>SteganographyEngine\<close>: bits of text and files\<close>

definition text_to_binary :: "codepoints \<Rightarrow> string" where
  "text_to_binary text = concat (map format_08b text)"

text \<open>
  \<^verbatim>\<open>binary_to_text\<close>: the loop \<^verbatim>\<open>for i in range(0, len(binary), 8)\<close> reads the slice
  \<^verbatim>\<open>binary[i:i+8]\<close> and skips it unless it has 8 characters; the recursion drops the 8
  characters each round reads.
\<close>

fun binary_to_text :: "string \<Rightarrow> codepoints option" where
  "binary_to_text binary =
     (if binary = [] then Some []
      else if length (take 8 binary) = 8
        then (case int_base2 (take 8 binary) of None \<Rightarrow> None
              | Some v \<Rightarrow> map_option ((#) v) (binary_to_text (drop 8 binary)))
        else binary_to_text (drop 8 binary))"

declare binary_to_text.simps [simp del]

text \<open>\<^verbatim>\<open>''.join(format(byte, '08b') for byte in file_data)\<close>\<close>

definition bytes_to_binary :: "bytes \<Rightarrow> string" where
  "bytes_to_binary bs = concat (map format_08b bs)"

text \<open>
  \<^verbatim>\<open>file_to_binary\<close>, after the file has been read: \<open>filename\<close> is
  \<^verbatim>\<open>os.path.basename(file_path)\<close> and \<open>file_data\<close> the bytes read.
  \<^verbatim>\<open>struct.pack('<II', ...)\<close> raises when a length does not fit 32 bits.
\<close>

definition file_to_binary :: "codepoints \<Rightarrow> bytes \<Rightarrow> (string \<times> codepoints \<times> string) option" where
  "file_to_binary filename file_data =
     (let file_size = length file_data;
          filename_binary = text_to_binary filename;
          file_data_binary = bytes_to_binary file_data;
          filename_length = length filename
      in case (pack_u32le filename_length, pack_u32le file_size) of
           (Some h1, Some h2) \<Rightarrow>
             Some (bytes_to_binary (h1 @ h2) @ filename_binary @ file_data_binary,
                   filename, str_nat file_size)
         | _ \<Rightarrow> None)"

subsection \<open>Images and image files\<close>

text \<open>
  What \<^verbatim>\<open>Image.open\<close> and \<^verbatim>\<open>list(img.getdata())\<close> deliver: the size and the pixel tuples,
  three channels in mode RGB, four in mode RGBA. For an image in any other mode the
  source first calls \<^verbatim>\<open>img.convert('RGB')\<close>; \<open>RGB\<close> stands for that image after the
  conversion.
\<close>

datatype pixels =
    RGB "(byte \<times> byte \<times> byte) list"
  | RGBA "(byte \<times> byte \<times> byte \<times> byte) list"

record image =
  size :: "nat \<times> nat"
  getdata :: pixels

datatype container = PNG | BMP

type_synonym files = "string \<rightharpoonup> container \<times> image"

fun channels :: "pixels \<Rightarrow> nat" where
  "channels (RGB ps) = 3"
| "channels (RGBA ps) = 4"

fun pixel_count :: "pixels \<Rightarrow> nat" where
  "pixel_count (RGB ps) = length ps"
| "pixel_count (RGBA ps) = length ps"

text \<open>\<^verbatim>\<open>new_img.convert('RGB')\<close> on an RGBA image: the alpha band is dropped.\<close>

fun convert_RGB :: "pixels \<Rightarrow> pixels" where
  "convert_RGB (RGBA ps) = RGB (map (\<lambda>(r, g, b, a). (r, g, b)) ps)"
| "convert_RGB (RGB ps) = RGB ps"

subsection \<open>\<^verbatim>\<open>embed_data_in_image\<close>\<close>

definition delimiter :: string where
  "delimiter = ''1111111111111110''"

text \<open>
  Lines 80--84: the hex digest of the password's UTF-8 bytes, as bits, in front of the
  data; nothing for the empty password.
\<close>

definition password_hash :: "codepoints \<Rightarrow> codepoints option" where
  "password_hash password = map_option sha256_hexdigest (encode password)"

definition add_password :: "string \<Rightarrow> codepoints \<Rightarrow> string option" where
  "add_password data password =
     (if password \<noteq> []
      then (case password_hash password of None \<Rightarrow> None
            | Some h \<Rightarrow> Some (text_to_binary h @ data))
      else Some data)"

text \<open>
  One channel of the loop body:
  \<^verbatim>\<open>if data_index < len(d): r = (r & 0xFE) | int(d[data_index]); data_index += 1\<close>
\<close>

definition write_lsb :: "string \<Rightarrow> byte \<Rightarrow> nat \<Rightarrow> (byte \<times> nat) option" where
  "write_lsb d c data_index =
     (if data_index < length d
      then (case int_digit (d ! data_index) of None \<Rightarrow> None
            | Some v \<Rightarrow> Some ((c AND 0xFE) OR of_nat v, data_index + 1))
      else Some (c, data_index))"

fun embed_rgb :: "string \<Rightarrow> nat \<Rightarrow> (byte \<times> byte \<times> byte) list
    \<Rightarrow> (byte \<times> byte \<times> byte) list option" where
  "embed_rgb d data_index [] = Some []"
| "embed_rgb d data_index ((r, g, b) # pixels) =
     do {
       (r', i1) \<leftarrow> write_lsb d r data_index;
       (g', i2) \<leftarrow> write_lsb d g i1;
       (b', i3) \<leftarrow> write_lsb d b i2;
       modified_pixels \<leftarrow> embed_rgb d i3 pixels;
       Some ((r', g', b') # modified_pixels)
     }"

fun embed_rgba :: "string \<Rightarrow> nat \<Rightarrow> (byte \<times> byte \<times> byte \<times> byte) list
    \<Rightarrow> (byte \<times> byte \<times> byte \<times> byte) list option" where
  "embed_rgba d data_index [] = Some []"
| "embed_rgba d data_index ((r, g, b, a) # pixels) =
     do {
       (r', i1) \<leftarrow> write_lsb d r data_index;
       (g', i2) \<leftarrow> write_lsb d g i1;
       (b', i3) \<leftarrow> write_lsb d b i2;
       (a', i4) \<leftarrow> write_lsb d a i3;
       modified_pixels \<leftarrow> embed_rgba d i4 pixels;
       Some ((r', g', b', a') # modified_pixels)
     }"

fun embed_pixels :: "string \<Rightarrow> pixels \<Rightarrow> pixels option" where
  "embed_pixels d (RGBA ps) = map_option RGBA (embed_rgba d 0 ps)"
| "embed_pixels d (RGB ps) = map_option RGB (embed_rgb d 0 ps)"

text \<open>
  Lines 144--162: the path and container the new image is written to, and what is
  written there.
\<close>

definition saved_path :: "string \<Rightarrow> string" where
  "saved_path output_path =
     (let output_ext = lower (snd (splitext output_path))
      in if output_ext = ''.png'' \<or> output_ext = []
         then (if \<not> suffix ''.png'' (lower output_path)
               then fst (splitext output_path) @ ''.png'' else output_path)
         else if output_ext = ''.bmp'' then output_path
         else fst (splitext output_path) @ ''.png'')"

definition saved_file :: "string \<Rightarrow> image \<Rightarrow> container \<times> image" where
  "saved_file output_path new_img =
     (let output_ext = lower (snd (splitext output_path))
      in if output_ext = ''.png'' \<or> output_ext = [] then (PNG, new_img)
         else if output_ext = ''.bmp''
           then (BMP, if channels (getdata new_img) = 4
                      then new_img\<lparr>getdata := convert_RGB (getdata new_img)\<rparr> else new_img)
         else (PNG, new_img))"

text \<open>
  The function returns its Boolean; the second component is the files afterwards.
  Failures of the operating system while writing are not modelled.
\<close>

definition embed_data_in_image ::
    "files \<Rightarrow> string \<Rightarrow> string \<Rightarrow> string \<Rightarrow> codepoints \<Rightarrow> bool \<times> files" where
  "embed_data_in_image fs image_path data output_path password =
     (case fs image_path of
        None \<Rightarrow> (False, fs)
      | Some (original_format, img) \<Rightarrow>
          (case add_password data password of
             None \<Rightarrow> (False, fs)
           | Some data' \<Rightarrow>
               (let data_with_delimiter = data' @ delimiter;
                    max_capacity = pixel_count (getdata img) * channels (getdata img)
                in if length data_with_delimiter > max_capacity then (False, fs)
                   else (case embed_pixels data_with_delimiter (getdata img) of
                           None \<Rightarrow> (False, fs)
                         | Some modified_pixels \<Rightarrow>
                             (True, fs(saved_path output_path \<mapsto>
                                saved_file output_path
                                  \<lparr>size = size img, getdata = modified_pixels\<rparr>))))))"

subsection \<open>\<^verbatim>\<open>extract_data_from_image\<close>\<close>

fun lsb_rgb :: "(byte \<times> byte \<times> byte) list \<Rightarrow> string" where
  "lsb_rgb [] = []"
| "lsb_rgb ((r, g, b) # pixels) =
     str_nat (unat (r AND 1)) @ str_nat (unat (g AND 1)) @ str_nat (unat (b AND 1))
       @ lsb_rgb pixels"

fun lsb_rgba :: "(byte \<times> byte \<times> byte \<times> byte) list \<Rightarrow> string" where
  "lsb_rgba [] = []"
| "lsb_rgba ((r, g, b, a) # pixels) =
     str_nat (unat (r AND 1)) @ str_nat (unat (g AND 1)) @ str_nat (unat (b AND 1))
       @ str_nat (unat (a AND 1)) @ lsb_rgba pixels"

fun scan_lsbs :: "pixels \<Rightarrow> string" where
  "scan_lsbs (RGBA ps) = lsb_rgba ps"
| "scan_lsbs (RGB ps) = lsb_rgb ps"

text \<open>Lines 215--231: the password gate on the bits before the delimiter.\<close>

definition check_password :: "string \<Rightarrow> codepoints \<Rightarrow> string option" where
  "check_password extracted_data password =
     (if password \<noteq> []
      then (case password_hash password of
              None \<Rightarrow> None
            | Some h \<Rightarrow>
                (let hash_length = length (text_to_binary h)
                 in if length extracted_data < hash_length then None
                    else (case binary_to_text (take hash_length extracted_data) of
                            None \<Rightarrow> None
                          | Some stored_hash \<Rightarrow>
                              if stored_hash \<noteq> h then None
                              else Some (drop hash_length extracted_data))))
      else Some extracted_data)"

definition extract_data_from_image :: "files \<Rightarrow> string \<Rightarrow> codepoints \<Rightarrow> string option" where
  "extract_data_from_image fs image_path password =
     (case fs image_path of
        None \<Rightarrow> None
      | Some (fmt, img) \<Rightarrow>
          (let binary_data = scan_lsbs (getdata img)
           in case str_find binary_data delimiter of
                None \<Rightarrow> None
              | Some delimiter_index \<Rightarrow>
                  check_password (take delimiter_index binary_data) password))"

subsection \<open>\<^verbatim>\<open>SteganographyGUI\<close>: telling a file frame from text\<close>

text \<open>
  \<^verbatim>\<open>bytes(int(b[i:i+8], 2) for i in range(0, len(b), 8))\<close>: unlike \<^verbatim>\<open>binary_to_text\<close>, a
  last group shorter than 8 characters is converted too.
\<close>

fun binary_to_bytes :: "string \<Rightarrow> bytes option" where
  "binary_to_bytes b =
     (if b = [] then Some []
      else (case int_base2 (take 8 b) of None \<Rightarrow> None
            | Some v \<Rightarrow> map_option ((#) v) (binary_to_bytes (drop 8 b))))"

declare binary_to_bytes.simps [simp del]

text \<open>Python's slice \<^verbatim>\<open>s[i:j]\<close> for \<open>0 \<le> i\<close> and \<open>0 \<le> j\<close>.\<close>

definition slice :: "'a list \<Rightarrow> nat \<Rightarrow> nat \<Rightarrow> 'a list" where
  "slice s i j = take (j - i) (drop i s)"

text \<open>The header: \<^verbatim>\<open>struct.unpack('<II', header_bytes)\<close> on the first 64 bits.\<close>

definition unpack_header :: "string \<Rightarrow> (nat \<times> nat) option" where
  "unpack_header binary_data =
     (case binary_to_bytes (slice binary_data 0 64) of
        None \<Rightarrow> None
      | Some header_bytes \<Rightarrow>
          (case (unpack_u32le (take 4 header_bytes), unpack_u32le (drop 4 header_bytes)) of
             (Some filename_length, Some file_size) \<Rightarrow> Some (filename_length, file_size)
           | _ \<Rightarrow> None))"

text \<open>
  What the GUI ends up with: text shown in the result box, a file (name and bytes) kept
  for saving, or the error box of \<^verbatim>\<open>extract_file_data\<close>.
\<close>

datatype extracted =
    Text codepoints
  | File codepoints bytes
  | Error

definition extract_file_data :: "string \<Rightarrow> extracted" where
  "extract_file_data binary_data =
     (case unpack_header binary_data of
        None \<Rightarrow> Error
      | Some (filename_length, file_size) \<Rightarrow>
          (let filename_start = 64;
               filename_end = filename_start + filename_length * 8;
               filename_binary = slice binary_data filename_start filename_end;
               file_data_binary = slice binary_data filename_end (filename_end + file_size * 8)
           in case (binary_to_text filename_binary, binary_to_bytes file_data_binary) of
                (Some filename, Some extracted_file_data) \<Rightarrow> File filename extracted_file_data
              | _ \<Rightarrow> Error))"

text \<open>
  \<^verbatim>\<open>extract_data\<close>, lines 1704--1724, on the bits the engine returned. An exception while
  reading the header is swallowed (\<^verbatim>\<open>except: pass\<close>) and the bits are shown as text; an
  exception in \<^verbatim>\<open>binary_to_text\<close> reaches the outer handler.
\<close>

definition as_text :: "string \<Rightarrow> extracted" where
  "as_text binary_data =
     (case binary_to_text binary_data of None \<Rightarrow> Error | Some text_data \<Rightarrow> Text text_data)"

definition extract_data :: "string \<Rightarrow> extracted" where
  "extract_data binary_data =
     (if length binary_data \<ge> 64
      then (case unpack_header binary_data of
              None \<Rightarrow> as_text binary_data
            | Some (filename_length, file_size) \<Rightarrow>
                if filename_length > 0 \<and> filename_length < 1000 \<and> file_size > 0
                then extract_file_data binary_data
                else as_text binary_data)
      else as_text binary_data)"

subsection \<open>Reference description of the channel codec\<close>

text \<open>
  The channel bytes of an image in traversal order: pixel after pixel, and within a pixel
  R, G, B, then A when present.
\<close>

fun channel_bytes :: "pixels \<Rightarrow> byte list" where
  "channel_bytes (RGB ps) = concat (map (\<lambda>(r, g, b). [r, g, b]) ps)"
| "channel_bytes (RGBA ps) = concat (map (\<lambda>(r, g, b, a). [r, g, b, a]) ps)"

text \<open>
  Embedding as the specification words it (section 4.4): while bits remain, the next
  channel gets the next bit as its least significant bit; afterwards nothing changes.
  It is compared with the loops of \<^verbatim>\<open>embed_data_in_image\<close> below.
\<close>

fun place_bits :: "string \<Rightarrow> nat \<Rightarrow> byte list \<Rightarrow> byte list" where
  "place_bits d i [] = []"
| "place_bits d i (c # cs) =
     (if i < length d
      then ((c AND 0xFE) OR (if d ! i = CHR ''1'' then 1 else 0)) # place_bits d (Suc i) cs
      else c # cs)"

text \<open>The character \<^verbatim>\<open>str(c & 1)\<close> of a channel.\<close>

definition lsb_char :: "byte \<Rightarrow> char" where
  "lsb_char c = (if odd c then CHR ''1'' else CHR ''0'')"

subsection \<open>Concrete inputs\<close>

text \<open>
  Small covers and a disk holding them, used where a property is evaluated at an input:
  a 3x2 RGBA image (capacity 24 bits), a 17x8 RGBA image (544 bits), a 4x3 RGB image
  (36 bits), a 10x10 RGB image (300 bits), and a 3x3 RGB image whose least significant
  bits spell the letter A, the delimiter and three more ones.
\<close>

definition cover_rgba_3x2 :: image where
  "cover_rgba_3x2 = \<lparr>size = (3, 2), getdata = RGBA (replicate 6 (255, 254, 7, 8))\<rparr>"

definition cover_rgba_17x8 :: image where
  "cover_rgba_17x8 = \<lparr>size = (17, 8), getdata = RGBA (replicate 136 (255, 254, 7, 8))\<rparr>"

definition cover_rgb_4x3 :: image where
  "cover_rgb_4x3 = \<lparr>size = (4, 3), getdata = RGB (replicate 12 (16, 33, 255))\<rparr>"

definition cover_rgb_10x10 :: image where
  "cover_rgb_10x10 = \<lparr>size = (10, 10), getdata = RGB (replicate 100 (0, 128, 255))\<rparr>"

definition stego_rgb_3x3 :: image where
  "stego_rgb_3x3 = \<lparr>size = (3, 3), getdata = RGB
     [(0, 1, 0), (0, 0, 0), (0, 1, 1), (1, 1, 1), (1, 1, 1), (1, 1, 1), (1, 1, 1), (1, 1, 0),
      (1, 1, 1)]\<rparr>"

definition disk :: files where
  "disk = [''small.png'' \<mapsto> (PNG, cover_rgba_3x2), ''cover.png'' \<mapsto> (PNG, cover_rgba_17x8),
           ''photo.bmp'' \<mapsto> (BMP, cover_rgb_4x3), ''square.png'' \<mapsto> (PNG, cover_rgb_10x10),
           ''stego.png'' \<mapsto> (PNG, stego_rgb_3x3)]"

section \<open>Properties\<close>

subsection \<open>Bit strings and the text codec\<close>

lemma digit01: "k < 2 \<Longrightarrow> ''01'' ! k = (if k = 0 then CHR ''0'' else CHR ''1'')"
  by (cases k) auto

lemma bit_string_append [simp]: "bit_string (xs @ ys) \<longleftrightarrow> bit_string xs \<and> bit_string ys"
  by (simp add: bit_string_def)

lemma bit_string_Cons [simp]:
  "bit_string (c # s) \<longleftrightarrow> (c = CHR ''0'' \<or> c = CHR ''1'') \<and> bit_string s"
  by (simp add: bit_string_def)

lemma bit_string_Nil [simp]: "bit_string []"
  by (simp add: bit_string_def)

lemma bit_string_replicate [simp]: "bit_string (replicate k CHR ''0'')"
  by (simp add: bit_string_def list_all_iff)

lemma bit_string_take: "bit_string s \<Longrightarrow> bit_string (take k s)"
  by (auto simp: bit_string_def list_all_iff dest: in_set_takeD)

lemma bit_string_drop: "bit_string s \<Longrightarrow> bit_string (drop k s)"
  by (auto simp: bit_string_def list_all_iff dest: in_set_dropD)

lemma bit_string_concat: "(\<And>x. x \<in> set xs \<Longrightarrow> bit_string (f x)) \<Longrightarrow> bit_string (concat (map f xs))"
  by (induction xs) auto

lemma bin_digits_bits: "bit_string (bin_digits n)"
proof (induction n rule: bin_digits.induct)
  case (1 n)
  show ?case
  proof (cases "n < 2")
    case True
    then show ?thesis by (subst bin_digits.simps) (simp add: digit01)
  next
    case False
    have "n mod 2 < 2" by simp
    with False 1 show ?thesis
      by (subst bin_digits.simps) (simp add: digit01 del: mod_less_divisor)
  qed
qed

lemma bits_value_snoc:
  "bits_value (s @ [c]) = 2 * bits_value s + (if c = CHR ''1'' then 1 else 0)"
  by (simp add: bits_value_def)

lemma bits_value_zeros: "bits_value (replicate k CHR ''0'' @ s) = bits_value s"
proof -
  have "foldl (\<lambda>acc c. 2 * acc + (if c = CHR ''1'' then 1 else 0)) (0::nat) (replicate k CHR ''0'') = 0"
    by (induction k) simp_all
  then show ?thesis by (simp add: bits_value_def)
qed

lemma bin_digits_value: "bits_value (bin_digits n) = n"
proof (induction n rule: bin_digits.induct)
  case (1 n)
  show ?case
  proof (cases "n < 2")
    case True
    then show ?thesis
      by (subst bin_digits.simps) (auto simp: digit01 bits_value_def)
  next
    case False
    have m: "n mod 2 < 2" by simp
    have "(if ''01'' ! (n mod 2) = CHR ''1'' then 1 else 0) = n mod 2"
      using m by (auto simp: digit01 simp del: mod_less_divisor)
    moreover have "bits_value (bin_digits (n div 2)) = n div 2"
      using 1 False by simp
    ultimately have "bits_value (bin_digits (n div 2) @ [''01'' ! (n mod 2)]) = 2 * (n div 2) + n mod 2"
      by (simp only: bits_value_snoc)
    with False show ?thesis by (subst bin_digits.simps) simp
  qed
qed

lemma bin_digits_nonempty: "bin_digits n \<noteq> []"
  by (subst bin_digits.simps) simp

lemma bin_digits_length: "0 < k \<Longrightarrow> length (bin_digits n) \<le> k \<longleftrightarrow> n < 2 ^ k"
proof (induction n arbitrary: k rule: bin_digits.induct)
  case (1 n)
  show ?case
  proof (cases "n < 2")
    case True
    have "(2::nat) ^ 1 \<le> 2 ^ k" using 1(2) by (intro power_increasing) auto
    with True 1(2) show ?thesis by (subst bin_digits.simps) auto
  next
    case False
    obtain j where k: "k = Suc j" using 1(2) by (cases k) auto
    show ?thesis
    proof (cases "j = 0")
      case True
      with False k show ?thesis
        using bin_digits_nonempty [of "n div 2"]
        by (subst bin_digits.simps) (auto simp: Suc_le_eq)
    next
      case j: False
      have "length (bin_digits (n div 2)) \<le> j \<longleftrightarrow> n div 2 < 2 ^ j"
        using 1(1) [OF False, of j] j by simp
      moreover have "n div 2 < 2 ^ j \<longleftrightarrow> n < 2 ^ Suc j"
        by (simp add: less_mult_imp_div_less div_less_iff_less_mult mult.commute)
      ultimately show ?thesis using False k by (subst bin_digits.simps) simp
    qed
  qed
qed

lemma bin_digits_hd: "0 < n \<Longrightarrow> hd (bin_digits n) = CHR ''1''"
proof (induction n rule: bin_digits.induct)
  case (1 n)
  show ?case
  proof (cases "n < 2")
    case True
    with 1(2) have "n = 1" by simp
    then show ?thesis by (subst bin_digits.simps) simp
  next
    case False
    then have "0 < n div 2" by simp
    with 1 False show ?thesis
      using bin_digits_nonempty [of "n div 2"]
      by (subst bin_digits.simps) simp
  qed
qed

lemma format_08b_length: "length (format_08b n) = max 8 (length (bin_digits n))"
  by (simp add: format_08b_def)

lemma format_08b_length_byte: "n < 256 \<Longrightarrow> length (format_08b n) = 8"
  using bin_digits_length [of 8 n] by (simp add: format_08b_length)

lemma format_08b_length_ge: "8 \<le> length (format_08b n)"
  by (simp add: format_08b_length)

lemma format_08b_length_iff: "length (format_08b n) = 8 \<longleftrightarrow> n < 256"
  using bin_digits_length [of 8 n] by (auto simp: format_08b_length)

lemma format_08b_large: "256 \<le> n \<Longrightarrow> format_08b n = bin_digits n \<and> 8 < length (bin_digits n)"
  using bin_digits_length [of 8 n] by (simp add: format_08b_def)

lemma format_08b_bits: "bit_string (format_08b n)"
  by (simp add: format_08b_def bin_digits_bits)

lemma format_08b_value: "bits_value (format_08b n) = n"
  by (simp add: format_08b_def bits_value_zeros bin_digits_value)

lemma format_08b_int: "int_base2 (format_08b n) = Some n"
  using format_08b_length_ge [of n]
  by (auto simp: int_base2_def format_08b_bits format_08b_value)

lemma format_08b_hd: "n < 128 \<Longrightarrow> format_08b n ! 0 = CHR ''0''"
proof -
  assume "n < 128"
  then have "length (bin_digits n) \<le> 7" using bin_digits_length [of 7 n] by simp
  then obtain j where "8 - length (bin_digits n) = Suc j"
    by (cases "8 - length (bin_digits n)") auto
  then show ?thesis by (simp add: format_08b_def)
qed

lemma text_to_binary_Nil [simp]: "text_to_binary [] = []"
  by (simp add: text_to_binary_def)

lemma text_to_binary_Cons [simp]: "text_to_binary (c # t) = format_08b c @ text_to_binary t"
  by (simp add: text_to_binary_def)

lemma text_to_binary_append [simp]: "text_to_binary (s @ t) = text_to_binary s @ text_to_binary t"
  by (simp add: text_to_binary_def)

lemma text_to_binary_bits: "bit_string (text_to_binary t)"
  by (induction t) (simp_all add: format_08b_bits)

lemma text_to_binary_length_ge: "8 * length t \<le> length (text_to_binary t)"
  by (induction t) (use format_08b_length_ge in \<open>auto simp: add_mono\<close>)

lemma text_to_binary_length_iff:
  "length (text_to_binary t) = 8 * length t \<longleftrightarrow> (\<forall>c\<in>set t. c < 256)"
proof (induction t)
  case Nil
  then show ?case by simp
next
  case (Cons c t)
  have "8 \<le> length (format_08b c)" by (rule format_08b_length_ge)
  moreover have "8 * length t \<le> length (text_to_binary t)" by (rule text_to_binary_length_ge)
  ultimately have "length (format_08b c) + length (text_to_binary t) = 8 + 8 * length t
      \<longleftrightarrow> length (format_08b c) = 8 \<and> length (text_to_binary t) = 8 * length t"
    by linarith
  with Cons show ?case by (simp add: format_08b_length_iff)
qed

lemma text_to_binary_length: "\<forall>c\<in>set t. c < 256 \<Longrightarrow> length (text_to_binary t) = 8 * length t"
  by (simp add: text_to_binary_length_iff)

lemma binary_to_text_encode:
  "\<forall>c\<in>set t. c < 256 \<Longrightarrow> binary_to_text (text_to_binary t) = Some t"
proof (induction t)
  case Nil
  then show ?case by (simp add: binary_to_text.simps)
next
  case (Cons c t)
  then have len: "length (format_08b c) = 8" by (simp add: format_08b_length_byte)
  then have ne: "format_08b c \<noteq> []" by auto
  show ?case using Cons len ne
    by (subst binary_to_text.simps) (simp add: format_08b_int)
qed

lemma bits_value_bound: "bits_value s < 2 ^ length s"
proof (induction s rule: rev_induct)
  case Nil
  then show ?case by (simp add: bits_value_def)
next
  case (snoc c s)
  then show ?case by (simp add: bits_value_snoc)
qed

lemma binary_to_text_range: "binary_to_text b = Some t \<Longrightarrow> \<forall>c\<in>set t. c < 256"
proof (induction b arbitrary: t rule: binary_to_text.induct)
  case (1 b)
  show ?case
  proof (cases "b = []")
    case True
    with 1(3) show ?thesis by (simp add: binary_to_text.simps)
  next
    case ne: False
    show ?thesis
    proof (cases "length (take 8 b) = 8")
      case True
      from 1(3) ne True obtain v t' where v: "int_base2 (take 8 b) = Some v"
        and t': "binary_to_text (drop 8 b) = Some t'" and t: "t = v # t'"
        by (subst (asm) binary_to_text.simps) (auto split: option.splits)
      have "v = bits_value (take 8 b)" using v by (auto simp: int_base2_def split: if_splits)
      then have "v < 256" using bits_value_bound [of "take 8 b"] True by simp
      moreover have "\<forall>c\<in>set t'. c < 256" using 1(1) [OF ne True v t'] .
      ultimately show ?thesis using t by simp
    next
      case False
      then have "length b < 8" by auto
      with 1(3) ne have "binary_to_text (drop 8 b) = Some t"
        by (subst (asm) binary_to_text.simps) simp
      then show ?thesis using 1(2) [OF ne False] by simp
    qed
  qed
qed

lemma binary_to_text_identity_iff:
  "binary_to_text (text_to_binary t) = Some t \<longleftrightarrow> (\<forall>c\<in>set t. c < 256)"
  using binary_to_text_encode binary_to_text_range by blast

subsection \<open>Searching for the delimiter\<close>

lemma str_find_None_iff: "str_find s sub = None \<longleftrightarrow> \<not> sublist sub s"
  by (induction s) (auto simp: sublist_Cons_right)

lemma str_find_prefix: "prefix sub s \<Longrightarrow> str_find s sub = Some 0"
  by (cases s) auto

lemma str_find_Some_iff:
  "str_find s sub = Some i \<longleftrightarrow>
     i \<le> length s \<and> prefix sub (drop i s) \<and> (\<forall>j<i. \<not> prefix sub (drop j s))"
proof (induction s arbitrary: i)
  case Nil
  then show ?case by auto
next
  case (Cons c s)
  show ?case
  proof (cases "prefix sub (c # s)")
    case True
    have "i = 0" if "\<forall>j<i. \<not> prefix sub (drop j (c # s))"
    proof (rule ccontr)
      assume "i \<noteq> 0"
      then have "0 < i" by simp
      with that have "\<not> prefix sub (drop 0 (c # s))" by blast
      with True show False by simp
    qed
    with True show ?thesis by auto
  next
    case False
    show ?thesis
    proof (cases i)
      case 0
      with False show ?thesis by auto
    next
      case (Suc i')
      have "(\<forall>j<Suc i'. \<not> prefix sub (drop j (c # s))) \<longleftrightarrow> (\<forall>j<i'. \<not> prefix sub (drop j s))"
      proof
        assume a: "\<forall>j<Suc i'. \<not> prefix sub (drop j (c # s))"
        show "\<forall>j<i'. \<not> prefix sub (drop j s)"
        proof (intro allI impI)
          fix j assume "j < i'"
          then have "Suc j < Suc i'" by simp
          with a have "\<not> prefix sub (drop (Suc j) (c # s))" by blast
          then show "\<not> prefix sub (drop j s)" by simp
        qed
      next
        assume a: "\<forall>j<i'. \<not> prefix sub (drop j s)"
        show "\<forall>j<Suc i'. \<not> prefix sub (drop j (c # s))"
        proof (intro allI impI)
          fix j assume j: "j < Suc i'"
          show "\<not> prefix sub (drop j (c # s))"
          proof (cases j)
            case 0
            with False show ?thesis by simp
          next
            case (Suc j')
            with j a show ?thesis by simp
          qed
        qed
      qed
      with False Suc Cons [of i'] show ?thesis by auto
    qed
  qed
qed

lemma delimiter_eq: "delimiter = replicate 15 CHR ''1'' @ [CHR ''0'']"
  by (simp add: delimiter_def numeral_eq_Suc)

lemma delimiter_length [simp]: "length delimiter = 16"
  by (simp add: delimiter_def)

lemma delimiter_bits: "bit_string delimiter"
  by (simp add: delimiter_def)

lemma delimiter_ones: "k < 15 \<Longrightarrow> delimiter ! k = CHR ''1''"
  by (simp add: delimiter_eq nth_append)

lemma delimiter_last: "delimiter ! 15 = CHR ''0''"
  by (simp add: delimiter_eq nth_append)

lemma prefix_nth: "prefix xs ys \<Longrightarrow> i < length xs \<Longrightarrow> ys ! i = xs ! i"
  by (auto simp: prefix_def nth_append)

lemma delimiter_no_straddle:
  assumes "d \<noteq> []" and "\<not> sublist delimiter d"
  shows "\<not> prefix delimiter (d @ delimiter @ r)"
proof
  assume p: "prefix delimiter (d @ delimiter @ r)"
  show False
  proof (cases "16 \<le> length d")
    case True
    from p have "prefix delimiter d \<or> (\<exists>us. delimiter = d @ us \<and> prefix us (delimiter @ r))"
      by (simp add: prefix_append)
    then have "prefix delimiter d"
    proof
      assume "\<exists>us. delimiter = d @ us \<and> prefix us (delimiter @ r)"
      then obtain us where us: "delimiter = d @ us" by blast
      then have "length delimiter = length d + length us" by (metis length_append)
      with True have "length us = 0" using delimiter_length by linarith
      then have "us = []" by simp
      with us show ?thesis by simp
    qed simp
    then have "sublist delimiter d" by (auto simp: prefix_def sublist_def intro: exI [of _ "[]"])
    with assms(2) show False by contradiction
  next
    case False
    define n where "n = length d"
    have n: "0 < n" "n < 16" using assms(1) False by (simp_all add: n_def)
    have "(d @ delimiter @ r) ! 15 = delimiter ! 15"
      using prefix_nth [OF p, of 15] by simp
    moreover have "(d @ delimiter @ r) ! 15 = delimiter ! (15 - n)"
    proof -
      have "\<not> 15 < length d" using n by (simp add: n_def)
      then have "(d @ delimiter @ r) ! 15 = (delimiter @ r) ! (15 - n)"
        by (simp add: nth_append n_def)
      moreover have "15 - n < length delimiter" by simp
      ultimately show ?thesis by (simp only: nth_append if_True)
    qed
    moreover have "delimiter ! (15 - n) = CHR ''1''"
      using n by (intro delimiter_ones) simp
    ultimately show False by (simp add: delimiter_last)
  qed
qed

lemma str_find_delimiter:
  "\<not> sublist delimiter d \<Longrightarrow> str_find (d @ delimiter @ r) delimiter = Some (length d)"
proof (induction d)
  case Nil
  then show ?case by (simp add: str_find_prefix)
next
  case (Cons c d)
  from Cons.prems have "\<not> sublist delimiter d" by (simp add: sublist_Cons_right)
  moreover have "\<not> prefix delimiter ((c # d) @ delimiter @ r)"
    using Cons.prems by (intro delimiter_no_straddle) simp_all
  ultimately show ?case using Cons.IH by simp
qed

subsection \<open>Bits of ASCII text hold no delimiter\<close>

lemma ascii_block_start:
  "\<forall>c\<in>set t. c < 128 \<Longrightarrow> j < length (text_to_binary t) \<Longrightarrow> j mod 8 = 0
     \<Longrightarrow> text_to_binary t ! j = CHR ''0''"
proof (induction t arbitrary: j)
  case Nil
  then show ?case by simp
next
  case (Cons c t)
  then have c: "c < 128" by simp
  then have len: "length (format_08b c) = 8" by (simp add: format_08b_length_byte)
  show ?case
  proof (cases "j < 8")
    case True
    with Cons.prems(3) have "j = 0" by auto
    with c len show ?thesis by (simp add: nth_append format_08b_hd)
  next
    case False
    then have "(j - 8) mod 8 = 0" using Cons.prems(3) by presburger
    moreover have "j - 8 < length (text_to_binary t)" using Cons.prems(2) False len by simp
    ultimately have "text_to_binary t ! (j - 8) = CHR ''0''"
      using Cons.IH Cons.prems(1) by simp
    with False len show ?thesis by (simp add: nth_append)
  qed
qed

lemma ascii_no_ones_run:
  assumes "\<forall>c\<in>set t. c < 128"
  shows "\<not> sublist (replicate 8 CHR ''1'') (text_to_binary t)"
proof
  assume "sublist (replicate 8 CHR ''1'') (text_to_binary t)"
  then obtain ps ss where s: "text_to_binary t = ps @ replicate 8 CHR ''1'' @ ss"
    by (auto simp: sublist_def)
  define i where "i = length ps"
  define j where "j = ((i + 7) div 8) * 8"
  have j: "i \<le> j" "j < i + 8" "j mod 8 = 0" by (simp_all add: j_def)
  have jl: "j < length (text_to_binary t)" using j s by (simp add: i_def)
  have "text_to_binary t ! j = CHR ''0''" by (rule ascii_block_start [OF assms jl j(3)])
  moreover have "text_to_binary t ! j = CHR ''1''"
  proof -
    have "j - i < 8" using j by simp
    then show ?thesis using j by (simp add: s nth_append i_def)
  qed
  ultimately show False by simp
qed

lemma ascii_no_delimiter:
  assumes "\<forall>c\<in>set t. c < 128"
  shows "\<not> sublist delimiter (text_to_binary t)"
proof
  assume "sublist delimiter (text_to_binary t)"
  then obtain ps ss where "text_to_binary t = ps @ delimiter @ ss"
    by (auto simp: sublist_def)
  moreover have "delimiter = replicate 8 CHR ''1'' @ replicate 7 CHR ''1'' @ [CHR ''0'']"
    by (simp add: delimiter_def numeral_eq_Suc)
  ultimately have "text_to_binary t = ps @ replicate 8 CHR ''1'' @ (replicate 7 CHR ''1'' @ [CHR ''0''] @ ss)"
    by simp
  then have "sublist (replicate 8 CHR ''1'') (text_to_binary t)"
    unfolding sublist_def by blast
  with ascii_no_ones_run [OF assms] show False by contradiction
qed

subsection \<open>The hex digest\<close>

lemma hexchar_range: "d < 16 \<Longrightarrow> (48 \<le> hexchar d \<and> hexchar d \<le> 57) \<or> (97 \<le> hexchar d \<and> hexchar d \<le> 102)"
  by (auto simp: hexchar_def)

lemma hex32_chars: "c \<in> set (hex32 w) \<Longrightarrow> (48 \<le> c \<and> c \<le> 57) \<or> (97 \<le> c \<and> c \<le> 102)"
proof -
  assume "c \<in> set (hex32 w)"
  then have "c \<in> (\<lambda>i. hexchar (w div 16 ^ i mod 16)) ` set [7, 6, 5, 4, 3, 2, 1, 0]"
    unfolding hex32_def set_map .
  then obtain i where "c = hexchar (w div 16 ^ i mod 16)" by blast
  moreover have "w div 16 ^ i mod 16 < 16" by simp
  ultimately show ?thesis using hexchar_range by blast
qed

lemma hex32_length: "length (hex32 w) = 8"
  by (simp add: hex32_def)

lemma state_words_length: "length (state_words s) = 8"
  by (cases s rule: state_words.cases) simp

lemma sha256_hexdigest_length: "length (sha256_hexdigest m) = 64"
proof -
  have "length (concat (map hex32 ws)) = 8 * length ws" for ws
    by (induction ws) (simp_all add: hex32_length)
  then show ?thesis by (simp add: sha256_hexdigest_def state_words_length)
qed

lemma sha256_hexdigest_chars:
  "c \<in> set (sha256_hexdigest m) \<Longrightarrow> (48 \<le> c \<and> c \<le> 57) \<or> (97 \<le> c \<and> c \<le> 102)"
  by (auto simp: sha256_hexdigest_def dest: hex32_chars)

lemma sha256_hexdigest_ascii: "\<forall>c\<in>set (sha256_hexdigest m). c < 128"
  using sha256_hexdigest_chars by fastforce

lemma digest_bits_length: "length (text_to_binary (sha256_hexdigest m)) = 512"
proof -
  have "\<forall>c\<in>set (sha256_hexdigest m). c < 256" using sha256_hexdigest_ascii by fastforce
  then show ?thesis by (simp add: text_to_binary_length sha256_hexdigest_length)
qed

subsection \<open>The embedding loops against the reference description\<close>

lemma set_lsb_upper: "((c AND 0xFE) OR (if b then 1 else 0)) AND 0xFE = c AND (0xFE :: byte)"
  by (cases b) (simp_all add: bit.conj_disj_distrib2 and.assoc)

lemma set_lsb_odd: "odd ((c AND 0xFE) OR (if b then 1 else 0) :: byte) \<longleftrightarrow> b"
  by (auto simp: even_or_iff even_and_iff)

lemma str_nat_lsb: "str_nat (unat (c AND 1)) = [lsb_char (c :: byte)]"
proof (cases "odd c")
  case True
  then have "c AND 1 = 1" by (simp add: and_one_eq odd_iff_mod_2_eq_one)
  then show ?thesis using True by (simp add: lsb_char_def str_nat.simps)
next
  case False
  then have "c AND 1 = 0" by (simp add: and_one_eq even_iff_mod_2_eq_zero)
  then show ?thesis using False by (simp add: lsb_char_def str_nat.simps)
qed

lemma bit_string_nth: "bit_string d \<Longrightarrow> i < length d \<Longrightarrow> d ! i = CHR ''0'' \<or> d ! i = CHR ''1''"
  by (auto simp: bit_string_def list_all_length)

lemma int_digit_bit: "int_digit CHR ''0'' = Some 0" "int_digit CHR ''1'' = Some 1"
  by (simp_all add: int_digit_def)

lemma write_lsb_bits:
  assumes "bit_string d"
  shows "write_lsb d c i =
    Some (if i < length d then ((c AND 0xFE) OR (if d ! i = CHR ''1'' then 1 else 0), Suc i)
          else (c, i))"
proof (cases "i < length d")
  case True
  with bit_string_nth [OF assms True] show ?thesis
    by (auto simp: write_lsb_def int_digit_bit)
next
  case False
  then show ?thesis by (simp add: write_lsb_def)
qed

lemma write_lsb_done: "length d \<le> i \<Longrightarrow> write_lsb d c i = Some (c, i)"
  by (simp add: write_lsb_def)

lemma embed_rgb_done: "length d \<le> i \<Longrightarrow> embed_rgb d i ps = Some ps"
  by (induction ps) (auto simp: write_lsb_done)

lemma embed_rgba_done: "length d \<le> i \<Longrightarrow> embed_rgba d i ps = Some ps"
  by (induction ps) (auto simp: write_lsb_done)

lemma place_bits_done: "length d \<le> i \<Longrightarrow> place_bits d i cs = cs"
  by (cases cs) auto

lemma place_bits_length [simp]: "length (place_bits d i cs) = length cs"
  by (induction cs arbitrary: i) auto

lemma embed_rgb_place:
  assumes "bit_string d"
  shows "\<exists>ps'. embed_rgb d i ps = Some ps' \<and> length ps' = length ps
           \<and> channel_bytes (RGB ps') = place_bits d i (channel_bytes (RGB ps))"
proof (induction ps arbitrary: i)
  case Nil
  then show ?case by simp
next
  case (Cons p ps)
  obtain r g b where p: "p = (r, g, b)" by (cases p) auto
  show ?case
  proof (cases "i + 3 \<le> length d")
    case True
    from Cons [of "Suc (Suc (Suc i))"] obtain ps' where
      "embed_rgb d (Suc (Suc (Suc i))) ps = Some ps'" "length ps' = length ps"
      "channel_bytes (RGB ps') = place_bits d (Suc (Suc (Suc i))) (channel_bytes (RGB ps))"
      by blast
    with True show ?thesis by (simp add: p write_lsb_bits [OF assms])
  next
    case False
    then show ?thesis
      by (simp add: p write_lsb_bits [OF assms] embed_rgb_done place_bits_done)
  qed
qed

lemma embed_rgba_place:
  assumes "bit_string d"
  shows "\<exists>ps'. embed_rgba d i ps = Some ps' \<and> length ps' = length ps
           \<and> channel_bytes (RGBA ps') = place_bits d i (channel_bytes (RGBA ps))"
proof (induction ps arbitrary: i)
  case Nil
  then show ?case by simp
next
  case (Cons p ps)
  obtain r g b a where p: "p = (r, g, b, a)" by (cases p) auto
  show ?case
  proof (cases "i + 4 \<le> length d")
    case True
    from Cons [of "Suc (Suc (Suc (Suc i)))"] obtain ps' where
      "embed_rgba d (Suc (Suc (Suc (Suc i)))) ps = Some ps'" "length ps' = length ps"
      "channel_bytes (RGBA ps') = place_bits d (Suc (Suc (Suc (Suc i)))) (channel_bytes (RGBA ps))"
      by blast
    with True show ?thesis by (simp add: p write_lsb_bits [OF assms])
  next
    case False
    then show ?thesis
      by (simp add: p write_lsb_bits [OF assms] embed_rgba_done place_bits_done)
  qed
qed

lemma embed_pixels_place:
  assumes "bit_string d"
  shows "\<exists>px'. embed_pixels d px = Some px' \<and> channels px' = channels px
           \<and> pixel_count px' = pixel_count px
           \<and> channel_bytes px' = place_bits d 0 (channel_bytes px)"
proof (cases px)
  case (RGB ps)
  with embed_rgb_place [OF assms, of 0 ps] show ?thesis by auto
next
  case (RGBA ps)
  with embed_rgba_place [OF assms, of 0 ps] show ?thesis by auto
qed

lemma channel_bytes_length: "length (channel_bytes px) = pixel_count px * channels px"
proof (cases px)
  case (RGB ps)
  have "length (concat (map (\<lambda>(r, g, b). [r, g, b]) ps)) = length ps * 3" for ps :: "(byte \<times> byte \<times> byte) list"
    by (induction ps) auto
  with RGB show ?thesis by simp
next
  case (RGBA ps)
  have "length (concat (map (\<lambda>(r, g, b, a). [r, g, b, a]) ps)) = length ps * 4" for ps :: "(byte \<times> byte \<times> byte \<times> byte) list"
    by (induction ps) auto
  with RGBA show ?thesis by simp
qed

lemma scan_lsbs_channels: "scan_lsbs px = map lsb_char (channel_bytes px)"
proof (cases px)
  case (RGB ps)
  have "lsb_rgb ps = map lsb_char (concat (map (\<lambda>(r, g, b). [r, g, b]) ps))"
    by (induction ps) (auto simp: str_nat_lsb)
  with RGB show ?thesis by simp
next
  case (RGBA ps)
  have "lsb_rgba ps = map lsb_char (concat (map (\<lambda>(r, g, b, a). [r, g, b, a]) ps))"
    by (induction ps) (auto simp: str_nat_lsb)
  with RGBA show ?thesis by simp
qed

lemma place_bits_nth:
  "k < length cs \<Longrightarrow> place_bits d i cs ! k =
     (if i + k < length d then (cs ! k AND 0xFE) OR (if d ! (i + k) = CHR ''1'' then 1 else 0)
      else cs ! k)"
proof (induction cs arbitrary: i k)
  case Nil
  then show ?case by simp
next
  case (Cons c cs)
  show ?case
  proof (cases k)
    case 0
    then show ?thesis by simp
  next
    case (Suc k')
    with Cons.prems have "k' < length cs" by simp
    from Cons.IH [OF this, of "Suc i"] Suc show ?thesis by simp
  qed
qed

lemma place_bits_lsbs:
  assumes "bit_string d"
  shows "map lsb_char (place_bits d i cs) =
           take (length cs) (drop i d) @ map lsb_char (drop (length d - i) cs)"
proof (induction cs arbitrary: i)
  case Nil
  then show ?case by simp
next
  case (Cons c cs)
  show ?case
  proof (cases "i < length d")
    case True
    have c: "lsb_char ((c AND 0xFE) OR (if d ! i = CHR ''1'' then 1 else 0)) = d ! i"
      using bit_string_nth [OF assms True] by (auto simp: lsb_char_def set_lsb_odd)
    have d: "drop i d = d ! i # drop (Suc i) d" using True by (simp add: Cons_nth_drop_Suc)
    have l: "length d - i = Suc (length d - Suc i)" using True by simp
    show ?thesis using True Cons.IH [of "Suc i"] by (simp add: c d l)
  next
    case False
    then show ?thesis by simp
  qed
qed

lemma place_bits_scan:
  assumes "bit_string d" and "length d \<le> length cs"
  shows "map lsb_char (place_bits d 0 cs) = d @ map lsb_char (drop (length d) cs)"
  using place_bits_lsbs [OF assms(1), of 0 cs] assms(2) by simp

subsection \<open>Embedding and extraction as a whole\<close>

lemma password_hash_Some:
  "password_hash password = Some h \<Longrightarrow> \<exists>bs. encode password = Some bs \<and> h = sha256_hexdigest bs"
  by (auto simp: password_hash_def)

lemma password_hash_bits_length: "password_hash password = Some h \<Longrightarrow> length (text_to_binary h) = 512"
  by (auto dest!: password_hash_Some simp: digest_bits_length)

lemma password_hash_ascii: "password_hash password = Some h \<Longrightarrow> \<forall>c\<in>set h. c < 128"
  by (auto dest!: password_hash_Some simp: sha256_hexdigest_ascii)

lemma add_password_cases:
  assumes "add_password data password = Some d"
  obtains "password = []" and "d = data"
  | h where "password \<noteq> []" and "password_hash password = Some h" and "d = text_to_binary h @ data"
  using assms by (auto simp: add_password_def split: if_splits option.splits)

lemma add_password_bits:
  "add_password data password = Some d \<Longrightarrow> bit_string data \<Longrightarrow> bit_string d"
  by (erule add_password_cases) (simp_all add: text_to_binary_bits)

lemma embed_failure_untouched:
  "\<not> fst (embed_data_in_image fs image_path data output_path password)
     \<Longrightarrow> snd (embed_data_in_image fs image_path data output_path password) = fs"
  by (auto simp: embed_data_in_image_def Let_def split: option.splits if_splits)

lemma embed_over_capacity:
  assumes "fs image_path = Some (fmt, img)"
    and "add_password data password = Some d"
    and "pixel_count (getdata img) * channels (getdata img) < length d + length delimiter"
  shows "embed_data_in_image fs image_path data output_path password = (False, fs)"
  using assms by (simp add: embed_data_in_image_def)

lemma embed_success:
  assumes "fs image_path = Some (fmt, img)"
    and "add_password data password = Some d"
    and "bit_string data"
    and "length d + length delimiter \<le> pixel_count (getdata img) * channels (getdata img)"
  shows "\<exists>px'. embed_pixels (d @ delimiter) (getdata img) = Some px'
           \<and> channels px' = channels (getdata img)
           \<and> pixel_count px' = pixel_count (getdata img)
           \<and> channel_bytes px' = place_bits (d @ delimiter) 0 (channel_bytes (getdata img))
           \<and> embed_data_in_image fs image_path data output_path password =
               (True, fs(saved_path output_path \<mapsto>
                  saved_file output_path \<lparr>size = size img, getdata = px'\<rparr>))"
proof -
  have "bit_string (d @ delimiter)"
    using add_password_bits [OF assms(2,3)] by (simp add: delimiter_bits)
  from embed_pixels_place [OF this, of "getdata img"] obtain px' where
    px': "embed_pixels (d @ delimiter) (getdata img) = Some px'"
      "channels px' = channels (getdata img)" "pixel_count px' = pixel_count (getdata img)"
      "channel_bytes px' = place_bits (d @ delimiter) 0 (channel_bytes (getdata img))"
    by blast
  moreover have "embed_data_in_image fs image_path data output_path password =
      (True, fs(saved_path output_path \<mapsto> saved_file output_path \<lparr>size = size img, getdata = px'\<rparr>))"
    using assms(1,2,4) px'(1) by (simp add: embed_data_in_image_def)
  ultimately show ?thesis by blast
qed

lemma embed_True_D:
  assumes "embed_data_in_image fs image_path data output_path password = (True, fs')"
  obtains fmt img d px' where "fs image_path = Some (fmt, img)"
    and "add_password data password = Some d"
    and "length d + length delimiter \<le> pixel_count (getdata img) * channels (getdata img)"
    and "embed_pixels (d @ delimiter) (getdata img) = Some px'"
    and "fs' = fs(saved_path output_path \<mapsto> saved_file output_path \<lparr>size = size img, getdata = px'\<rparr>)"
  using assms
  by (auto simp: embed_data_in_image_def Let_def not_less split: option.splits if_splits)

lemma saved_file_getdata:
  "\<not> (channels px = 4 \<and> lower (snd (splitext output_path)) = ''.bmp'')
     \<Longrightarrow> getdata (snd (saved_file output_path \<lparr>size = s, getdata = px\<rparr>)) = px"
  by (auto simp: saved_file_def Let_def)

lemma saved_file_size: "size (snd (saved_file output_path \<lparr>size = s, getdata = px\<rparr>)) = s"
  by (auto simp: saved_file_def Let_def)

lemma stego_scan:
  assumes "bit_string dd" and "length dd \<le> pixel_count px * channels px"
    and "channel_bytes px' = place_bits dd 0 (channel_bytes px)"
  shows "scan_lsbs px' = dd @ map lsb_char (drop (length dd) (channel_bytes px))"
  using assms place_bits_scan [of dd "channel_bytes px"]
  by (simp add: scan_lsbs_channels channel_bytes_length)

lemma str_find_at_most:
  "\<exists>i\<le>length d. str_find (d @ sub @ r) sub = Some i"
proof -
  have "sublist sub (d @ sub @ r)" by simp
  then obtain i where i: "str_find (d @ sub @ r) sub = Some i"
    using str_find_None_iff [of "d @ sub @ r" sub] by (cases "str_find (d @ sub @ r) sub") auto
  have "i \<le> length d"
  proof (rule ccontr)
    assume "\<not> i \<le> length d"
    then have "length d < i" by simp
    moreover from i [unfolded str_find_Some_iff]
    have "\<forall>j<i. \<not> prefix sub (drop j (d @ sub @ r))" by blast
    ultimately have "\<not> prefix sub (drop (length d) (d @ sub @ r))" by blast
    then show False by simp
  qed
  with i show ?thesis by blast
qed

lemma check_password_empty [simp]: "check_password x [] = Some x"
  by (simp add: check_password_def)

lemma check_password_right:
  assumes "password \<noteq> []" and "password_hash password = Some h"
  shows "check_password (text_to_binary h @ data) password = Some data"
proof -
  have "\<forall>c\<in>set h. c < 256" using password_hash_ascii [OF assms(2)] by fastforce
  then have "binary_to_text (text_to_binary h) = Some h" by (rule binary_to_text_encode)
  then show ?thesis using assms by (simp add: check_password_def)
qed

lemma check_password_add:
  "add_password data password = Some d \<Longrightarrow> check_password d password = Some data"
  by (erule add_password_cases) (simp_all add: check_password_right)

lemma extract_scan:
  assumes "fs image_path = Some (fmt, img)" and "scan_lsbs (getdata img) = d @ delimiter @ r"
    and "\<not> sublist delimiter d"
  shows "extract_data_from_image fs image_path password = check_password d password"
  using assms by (simp add: extract_data_from_image_def str_find_delimiter)

lemma embed_extract:
  assumes cover: "fs image_path = Some (fmt, img)"
    and pw: "add_password data password = Some d"
    and bits: "bit_string data"
    and fit: "length d + length delimiter \<le> pixel_count (getdata img) * channels (getdata img)"
    and nodelim: "str_find d delimiter = None"
    and nobmp: "\<not> (channels (getdata img) = 4 \<and> lower (snd (splitext output_path)) = ''.bmp'')"
  shows "fst (embed_data_in_image fs image_path data output_path password)"
    and "extract_data_from_image (snd (embed_data_in_image fs image_path data output_path password))
           (saved_path output_path) password' = check_password d password'"
proof -
  from embed_success [of fs image_path fmt img data password d output_path, OF cover pw bits fit]
  obtain px' where
    px': "channels px' = channels (getdata img)"
      "channel_bytes px' = place_bits (d @ delimiter) 0 (channel_bytes (getdata img))"
    and emb: "embed_data_in_image fs image_path data output_path password =
        (True, fs(saved_path output_path \<mapsto>
           saved_file output_path \<lparr>size = size img, getdata = px'\<rparr>))"
    by blast
  show "fst (embed_data_in_image fs image_path data output_path password)"
    by (simp add: emb)
  define fs' where "fs' = snd (embed_data_in_image fs image_path data output_path password)"
  define out where "out = saved_file output_path \<lparr>size = size img, getdata = px'\<rparr>"
  have out: "fs' (saved_path output_path) = Some (fst out, snd out)"
    by (simp add: fs'_def emb out_def)
  have "getdata (snd out) = px'"
    unfolding out_def using nobmp px'(1) by (intro saved_file_getdata) simp
  moreover have "bit_string (d @ delimiter)"
    using add_password_bits [OF pw bits] by (simp add: delimiter_bits)
  moreover have "length (d @ delimiter) \<le> pixel_count (getdata img) * channels (getdata img)"
    using fit by simp
  ultimately have "scan_lsbs (getdata (snd out)) =
      d @ delimiter @ map lsb_char (drop (length (d @ delimiter)) (channel_bytes (getdata img)))"
    using stego_scan [OF _ _ px'(2)] by simp
  moreover have "\<not> sublist delimiter d" using nodelim by (simp add: str_find_None_iff)
  ultimately show "extract_data_from_image fs' (saved_path output_path) password' = check_password d password'"
    using extract_scan [of fs' "saved_path output_path" "fst out" "snd out", OF out] by blast
qed

subsection \<open>Claims on embedding: C1, C2, C5, C6\<close>

lemma add_password_length:
  "add_password data password = Some d
     \<Longrightarrow> length d = (if password = [] then 0 else 512) + length data"
  by (erule add_password_cases) (simp_all add: password_hash_bits_length)

lemma embed_bad_password:
  "fs image_path = Some (fmt, img) \<Longrightarrow> add_password data password = None
     \<Longrightarrow> embed_data_in_image fs image_path data output_path password = (False, fs)"
  by (simp add: embed_data_in_image_def)




text \<open>
  C2. The capacity comparison comes before the pixel loop: when the bits to embed and
  the delimiter exceed \<open>pixelCount * channelCount\<close>, \<^verbatim>\<open>embed_data_in_image\<close> returns
  \<^verbatim>\<open>False\<close> and the files are what they were: the cover is unchanged and no output
  exists, whatever the data holds.
\<close>

theorem capacity_failure_untouched:
  assumes "fs image_path = Some (fmt, img)"
    and "add_password data password = Some d"
    and "pixel_count (getdata img) * channels (getdata img) < length d + length delimiter"
  shows "embed_data_in_image fs image_path data output_path password = (False, fs)"
  using assms by (rule embed_over_capacity)

theorem capacity_failure_untouched_witness:
  "disk ''small.png'' = Some (PNG, cover_rgba_3x2)
   \<and> add_password (text_to_binary [65, 66]) [] = Some (text_to_binary [65, 66])
   \<and> pixel_count (getdata cover_rgba_3x2) * channels (getdata cover_rgba_3x2)
       < length (text_to_binary [65, 66]) + length delimiter
   \<and> embed_data_in_image disk ''small.png'' (text_to_binary [65, 66]) ''out.png'' [] = (False, disk)"
proof -
  have h1: "disk ''small.png'' = Some (PNG, cover_rgba_3x2)" by (simp add: disk_def)
  have h2: "add_password (text_to_binary [65, 66]) [] = Some (text_to_binary [65, 66])"
    by (simp add: add_password_def)
  have h3: "pixel_count (getdata cover_rgba_3x2) * channels (getdata cover_rgba_3x2)
       < length (text_to_binary [65, 66]) + length delimiter"
    by (simp add: cover_rgba_3x2_def format_08b_length_byte)
  from capacity_failure_untouched [of disk "''small.png''" PNG cover_rgba_3x2
      "text_to_binary [65, 66]" "[]" "text_to_binary [65, 66]" "''out.png''", OF h1 h2 h3]
  show ?thesis using h1 h2 h3 by blast
qed

text \<open>
  C5. For a bit string \<open>d\<close> the loop of lines 97--135 returns pixels of the same number
  and mode in which every channel keeps its upper seven bits; in traversal order
  (R, G, B, then A) channel \<open>k\<close> carries bit \<open>k\<close> of \<open>d\<close> as its least significant bit,
  and every channel from position \<open>length d\<close> on is the original byte.
\<close>

theorem embed_touches_lsb_only:
  assumes "bit_string d"
  shows "\<exists>px'. embed_pixels d px = Some px'
    \<and> pixel_count px' = pixel_count px \<and> channels px' = channels px
    \<and> (\<forall>k < pixel_count px * channels px.
          channel_bytes px' ! k AND 0xFE = channel_bytes px ! k AND 0xFE
          \<and> (k < length d \<longrightarrow> lsb_char (channel_bytes px' ! k) = d ! k)
          \<and> (length d \<le> k \<longrightarrow> channel_bytes px' ! k = channel_bytes px ! k))"
proof -
  from embed_pixels_place [OF assms, of px] obtain px' where
    px': "embed_pixels d px = Some px'" "channels px' = channels px"
      "pixel_count px' = pixel_count px"
      "channel_bytes px' = place_bits d 0 (channel_bytes px)"
    by blast
  have "channel_bytes px' ! k AND 0xFE = channel_bytes px ! k AND 0xFE
          \<and> (k < length d \<longrightarrow> lsb_char (channel_bytes px' ! k) = d ! k)
          \<and> (length d \<le> k \<longrightarrow> channel_bytes px' ! k = channel_bytes px ! k)"
    if "k < pixel_count px * channels px" for k
  proof -
    from that have k: "k < length (channel_bytes px)" by (simp add: channel_bytes_length)
    have new: "channel_bytes px' ! k =
        (if k < length d
         then (channel_bytes px ! k AND 0xFE) OR (if d ! k = CHR ''1'' then 1 else 0)
         else channel_bytes px ! k)"
      using place_bits_nth [OF k, of d 0] by (simp add: px'(4))
    have "lsb_char (channel_bytes px' ! k) = d ! k" if "k < length d"
      using bit_string_nth [OF assms that] that
      by (auto simp: new lsb_char_def set_lsb_odd)
    then show ?thesis by (simp add: new set_lsb_upper)
  qed
  with px' show ?thesis by blast
qed

theorem embed_touches_lsb_only_witness:
  "bit_string ''0110''
   \<and> (\<exists>px'. embed_pixels ''0110'' (RGB [(255, 254, 7), (9, 10, 11)]) = Some px'
    \<and> pixel_count px' = pixel_count (RGB [(255, 254, 7), (9, 10, 11)])
    \<and> channels px' = channels (RGB [(255, 254, 7), (9, 10, 11)])
    \<and> (\<forall>k < pixel_count (RGB [(255, 254, 7), (9, 10, 11)]) * channels (RGB [(255, 254, 7), (9, 10, 11)]).
          channel_bytes px' ! k AND 0xFE = channel_bytes (RGB [(255, 254, 7), (9, 10, 11)]) ! k AND 0xFE
          \<and> (k < length ''0110'' \<longrightarrow> lsb_char (channel_bytes px' ! k) = ''0110'' ! k)
          \<and> (length ''0110'' \<le> k \<longrightarrow> channel_bytes px' ! k = channel_bytes (RGB [(255, 254, 7), (9, 10, 11)]) ! k)))
   \<and> embed_pixels ''0110'' (RGB [(255, 254, 7), (9, 10, 11)]) = Some (RGB [(254, 255, 7), (8, 10, 11)])"
proof -
  have h: "bit_string ''0110''" by simp
  have "embed_pixels ''0110'' (RGB [(255, 254, 7), (9, 10, 11)]) = Some (RGB [(254, 255, 7), (8, 10, 11)])"
    by code_simp
  with embed_touches_lsb_only [OF h, of "RGB [(255, 254, 7), (9, 10, 11)]"] h
  show ?thesis by blast
qed



end
